theory Spec2Isabelle
  imports Complex_Main "HOL-Library.Word"
begin

section \<open>Strings and thrown values\<close>

text \<open>
  A JavaScript string is modelled as a \<^typ>\<open>string\<close>: one \<^typ>\<open>char\<close> per code unit,
  for the code units below 256. That covers every literal of the service and the whole
  output range of the browser's \<open>atob\<close>.

  \<open>String.prototype.trim\<close> removes white space and line terminators from both ends; the
  code units below 256 in that class are TAB, LF, VT, FF, CR, SPACE and NBSP.
\<close>

definition isWhiteSpace :: "char \<Rightarrow> bool" where
  "isWhiteSpace c = (List.member [CHR 0x09, CHR 0x0A, CHR 0x0B, CHR 0x0C, CHR 0x0D, CHR 0x20, CHR 0xA0] c)"

definition trim :: "string \<Rightarrow> string" where
  "trim s = rev (dropWhile isWhiteSpace (rev (dropWhile isWhiteSpace s)))"

text \<open>\<open>s.includes(t)\<close>: \<open>t\<close> occurs in \<open>s\<close> as a contiguous substring.\<close>

fun includesStr :: "string \<Rightarrow> string \<Rightarrow> bool" where
  "includesStr [] t = (t = [])"
| "includesStr (c # cs) t = (take (length t) (c # cs) = t \<or> includesStr cs t)"

text \<open>
  A value thrown by the hosted API is an object; the service reads three of its
  properties, each of which may be absent. \<open>status\<close> is compared with a string, \<open>code\<close>
  with a number, and \<open>message\<close> is a string when present, as it is on every \<open>Error\<close>.
  A rejected promise is \<open>Inl error\<close>, a fulfilled one \<open>Inr value\<close>.
\<close>

datatype js_error = JsError (status: "string option") (code: "int option") (message: "string option")

text \<open>
  The test the source writes out three times (in \<open>withRetry\<close>, in the fallback loop and
  in \<open>chat\<close>):
  \<^verbatim>\<open>error.status === "RESOURCE_EXHAUSTED" || error.code === 429 || error.message?.includes("quota")\<close>
\<close>

definition isQuotaError :: "js_error \<Rightarrow> bool" where
  "isQuotaError error =
     (status error = Some ''RESOURCE_EXHAUSTED'' \<or> code error = Some 429 \<or>
      (case message error of None \<Rightarrow> False | Some m \<Rightarrow> includesStr m ''quota''))"

section \<open>The service and the world around it\<close>

text \<open>The fields of \<open>class GladosService\<close>; the API client \<open>ai\<close> is the environment below.\<close>

record GladosService =
  textModels :: "string list"
  currentTextModelIndex :: int
  lastModelCheck :: int
  CHECK_INTERVAL :: int

definition constructed :: GladosService where
  "constructed = \<lparr> textModels = [''gemini-3-flash-preview'', ''gemini-2.5-flash''],
                    currentTextModelIndex = 0, lastModelCheck = 0, CHECK_INTERVAL = 60000 \<rparr>"

text \<open>The response of the speech model, as far as \<open>generateAudio\<close> looks into it.\<close>

datatype blob = Blob (data: "string option")
datatype part = Part (inlineData: "blob option")
datatype content = Content (parts: "part list option")
datatype candidate = Candidate (content: "content option")
datatype audio_response = AudioResponse (candidates: "candidate list option")

text \<open>
  What the outside world does during one call of the service. The hosted API is free to
  answer each request as it likes, so its answers are arbitrary functions:
  \<^item> \<open>text_request i\<close> is the outcome of the request the fallback loop places in
    iteration \<open>i\<close> (an iteration runs at most once per call); a fulfilled request carries
    \<open>response.text\<close>, which may be absent;
  \<^item> \<open>speech_request k\<close> is the outcome of the \<open>k\<close>-th request to the speech model;
  \<^item> \<open>now_on_entry\<close> and \<open>now_on_success\<close> are the two readings of \<open>Date.now()\<close>.
\<close>

record world =
  now_on_entry :: int
  now_on_success :: int
  text_request :: "int \<Rightarrow> js_error + string option"
  speech_request :: "nat \<Rightarrow> js_error + audio_response"

section \<open>withRetry and generateAudio\<close>

text \<open>
  The timeline of \<open>withRetry\<close>: \<open>Invoke k\<close> is the \<open>k\<close>-th call of \<open>fn\<close>, \<open>Timeout d\<close> the
  awaited \<open>setTimeout(resolve, d)\<close>.
\<close>

datatype timeline = Invoke nat | Timeout nat

fun withRetry :: "(nat \<Rightarrow> js_error + 'a) \<Rightarrow> nat \<Rightarrow> nat \<Rightarrow> nat \<Rightarrow> (js_error + 'a) \<times> timeline list" where
  "withRetry fn k retries delay =
     (case fn k of
        Inr r \<Rightarrow> (Inr r, [Invoke k])
      | Inl error \<Rightarrow>
          if retries > 0 \<and> isQuotaError error
          then (case withRetry fn (Suc k) (retries - 1) (delay * 2) of
                  (r, rest) \<Rightarrow> (r, Invoke k # Timeout delay # rest))
          else (Inl error, [Invoke k]))"

text \<open>\<^verbatim>\<open>audioResponse.candidates?.[0]?.content?.parts?.find(p => p.inlineData)?.inlineData?.data\<close>\<close>

definition inlineAudio :: "audio_response \<Rightarrow> string option" where
  "inlineAudio audioResponse =
     (case candidates audioResponse of
        None \<Rightarrow> None
      | Some [] \<Rightarrow> None
      | Some (c # _) \<Rightarrow>
          (case content c of
             None \<Rightarrow> None
           | Some ct \<Rightarrow>
               (case parts ct of
                  None \<Rightarrow> None
                | Some ps \<Rightarrow>
                    (case find (\<lambda>p. inlineData p \<noteq> None) ps of
                       None \<Rightarrow> None
                     | Some p \<Rightarrow> (case inlineData p of None \<Rightarrow> None | Some b \<Rightarrow> data b)))))"

definition generateAudio :: "world \<Rightarrow> (js_error + string option) \<times> timeline list" where
  "generateAudio w =
     (case withRetry (speech_request w) 0 1 500 of
        (Inr audioResponse, tline) \<Rightarrow> (Inr (inlineAudio audioResponse), tline)
      | (Inl error, tline) \<Rightarrow> (Inr None, tline))"

section \<open>generateTextWithFallback\<close>

definition refusal :: string where
  "refusal = ''I'm afraid I can't do that. Mostly because I don't want to.''"

text \<open>\<open>this.textModels[i]\<close>: \<open>undefined\<close> outside the array.\<close>

definition model_at :: "string list \<Rightarrow> int \<Rightarrow> string option" where
  "model_at ms i = (if 0 \<le> i \<and> i < int (length ms) then Some (ms ! nat i) else None)"

text \<open>
  The three ways out of the \<open>for\<close> loop: a \<open>return text\<close> inside it, the \<open>throw error\<close>
  of the last candidate, and running off its end.
\<close>

datatype loop_exit = Return string | Throw js_error | FallThrough

type_synonym request = "int \<times> string option"

definition logged :: "request \<Rightarrow> loop_exit \<times> GladosService \<times> request list \<Rightarrow> loop_exit \<times> GladosService \<times> request list" where
  "logged q r = (case r of (x, s, reqs) \<Rightarrow> (x, s, q # reqs))"

text \<open>
  The loop from iteration \<open>i\<close> on. Besides the exit and the service's fields it returns
  the requests placed, in order: the index and the model asked for.
\<close>

function fallback_loop :: "world \<Rightarrow> int \<Rightarrow> GladosService \<Rightarrow> loop_exit \<times> GladosService \<times> request list" where
  "fallback_loop w i s =
     (if i < int (length (textModels s)) then
        (let model = model_at (textModels s) i in
         case text_request w i of
           Inr response_text \<Rightarrow>
             (case map_option trim response_text of
                Some (c # cs) \<Rightarrow>
                  (Return (c # cs),
                   s\<lparr>currentTextModelIndex := i, lastModelCheck := now_on_success w\<rparr>,
                   [(i, model)])
              | _ \<Rightarrow> logged (i, model) (fallback_loop w (i + 1) s))
         | Inl error \<Rightarrow>
             if isQuotaError error \<and> i < int (length (textModels s)) - 1
             then logged (i, model) (fallback_loop w (i + 1) (s\<lparr>currentTextModelIndex := i + 1\<rparr>))
             else if i < int (length (textModels s)) - 1
             then logged (i, model) (fallback_loop w (i + 1) (s\<lparr>currentTextModelIndex := i + 1\<rparr>))
             else (Throw error, s, [(i, model)]))
      else (FallThrough, s, []))"
  by pat_completeness auto
termination
  by (relation "measure (\<lambda>(w, i, s). nat (int (length (textModels s)) - i))") auto

text \<open>The cool-down probe at the head of \<open>generateTextWithFallback\<close>.\<close>

definition promote :: "world \<Rightarrow> GladosService \<Rightarrow> GladosService" where
  "promote w s =
     (if currentTextModelIndex s > 0 \<and> now_on_entry w - lastModelCheck s > CHECK_INTERVAL s
      then s\<lparr>currentTextModelIndex := 0\<rparr> else s)"

definition generateTextWithFallback :: "world \<Rightarrow> GladosService \<Rightarrow> (js_error + string) \<times> GladosService \<times> request list" where
  "generateTextWithFallback w s =
     (let s1 = promote w s in
      case fallback_loop w (currentTextModelIndex s1) s1 of
        (Return text, s2, reqs) \<Rightarrow> (Inr text, s2, reqs)
      | (Throw error, s2, reqs) \<Rightarrow> (Inl error, s2, reqs)
      | (FallThrough, s2, reqs) \<Rightarrow> (Inr refusal, s2, reqs))"

section \<open>chat\<close>

record reply =
  "text" :: string
  audioBase64 :: "string option"

definition error_text :: string where
  "error_text = ''An error occurred in my central processing unit. I'd say I'm sorry, but we both know that would be a lie. A very big, fat, orphan-sized lie.''"

definition quota_text :: string where
  "quota_text = ''Facility-wide resource allocation has been prioritized for more important matters than your incessant chatter. All available processing units are currently occupied.''"

text \<open>The inner \<open>try\<close>/\<open>catch\<close> around \<open>generateAudio\<close>: a rejection leaves \<open>audioBase64\<close> unset.\<close>

definition audio_or_undefined :: "world \<Rightarrow> string option" where
  "audio_or_undefined w = (case fst (generateAudio w) of Inr a \<Rightarrow> a | Inl audioError \<Rightarrow> None)"

definition chat :: "world \<Rightarrow> GladosService \<Rightarrow> (js_error + reply) \<times> GladosService" where
  "chat w s =
     (case generateTextWithFallback w s of
        (Inr gladosText, s', reqs) \<Rightarrow>
          (Inr \<lparr> text = gladosText, audioBase64 = audio_or_undefined w \<rparr>, s')
      | (Inl error, s', reqs) \<Rightarrow>
          (Inr \<lparr> text = (if isQuotaError error then quota_text else error_text),
                 audioBase64 = None \<rparr>, s'))"

section \<open>chatStream\<close>

text \<open>
  What the generator yields: \<open>{ text, audioBase64?, done? }\<close>. Every \<open>yield\<close> of the source
  supplies \<open>text\<close>, so an event is a \<open>reply\<close> with one more optional property.
\<close>

record event = reply +
  "done" :: "bool option"

text \<open>
  The behaviour of \<open>generateContentStream\<close>: the request is rejected outright, or it
  delivers chunks (of each the service reads \<open>chunk.text\<close>, which may be absent) and then
  either completes or fails.
\<close>

datatype stream_source = StreamRejects js_error | Stream "string option list" "js_error option"

text \<open>The \<open>for await\<close> loop: the running total and the events yielded on the way.\<close>

fun accumulate :: "string \<Rightarrow> string option list \<Rightarrow> string \<times> event list" where
  "accumulate fullText [] = (fullText, [])"
| "accumulate fullText (textChunk # rest) =
     (case textChunk of
        Some (c # cs) \<Rightarrow>
          (case accumulate (fullText @ c # cs) rest of
             (full, evs) \<Rightarrow>
               (full, \<lparr> text = fullText @ c # cs, audioBase64 = None, done = None \<rparr> # evs))
      | _ \<Rightarrow> accumulate fullText rest)"

text \<open>The \<open>catch\<close> block: \<open>yield { ...result, done: true }\<close> with the result of \<open>chat\<close>.\<close>

definition stream_fallback :: "event list \<Rightarrow> world \<Rightarrow> GladosService \<Rightarrow> event list \<times> js_error option \<times> GladosService" where
  "stream_fallback evs w s =
     (case chat w s of
        (Inr result, s') \<Rightarrow> (evs @ [reply.extend result \<lparr> done = Some True \<rparr>], None, s')
      | (Inl error, s') \<Rightarrow> (evs, Some error, s'))"

text \<open>
  The generator run to its end: the events yielded in order, the error it ends with (if
  it throws), and the service's fields afterwards.
\<close>

definition chatStream :: "stream_source \<Rightarrow> world \<Rightarrow> GladosService \<Rightarrow> event list \<times> js_error option \<times> GladosService" where
  "chatStream src w s =
     (case src of
        StreamRejects error \<Rightarrow> stream_fallback [] w s
      | Stream chunks failure \<Rightarrow>
          (case accumulate [] chunks of
             (fullText, evs) \<Rightarrow>
               (case failure of
                  Some error \<Rightarrow> stream_fallback evs w s
                | None \<Rightarrow>
                    (evs @ [\<lparr> text = fullText, audioBase64 = audio_or_undefined w, done = Some True \<rparr>],
                     None, s))))"

section \<open>Sequences of calls\<close>

datatype call = Chat world | ChatStream stream_source world | GenerateAudio world

fun perform :: "GladosService \<Rightarrow> call \<Rightarrow> GladosService" where
  "perform s (Chat w) = snd (chat w s)"
| "perform s (ChatStream src w) = snd (snd (chatStream src w s))"
| "perform s (GenerateAudio w) = s"

definition valid_index :: "GladosService \<Rightarrow> bool" where
  "valid_index s = (0 \<le> currentTextModelIndex s \<and> currentTextModelIndex s \<le> int (length (textModels s)) - 1)"

text \<open>
  A request that is fulfilled without usable text: \<open>response.text\<close> is absent, empty or
  white space only, so that \<open>response.text?.trim()\<close> is falsy.
\<close>

definition blank :: "js_error + string option \<Rightarrow> bool" where
  "blank r = (case r of Inl e \<Rightarrow> False | Inr None \<Rightarrow> True | Inr (Some t) \<Rightarrow> trim t = [])"

section \<open>Scripted worlds for concrete runs\<close>

definition quota_error :: js_error where
  "quota_error = JsError (Some ''RESOURCE_EXHAUSTED'') (Some 429) (Some ''You exceeded your current quota.'')"

definition server_error :: js_error where
  "server_error = JsError (Some ''INTERNAL'') (Some 500) (Some ''Internal error encountered.'')"

definition spoken :: "string \<Rightarrow> audio_response" where
  "spoken d = AudioResponse (Some [Candidate (Some (Content (Some [Part (Some (Blob (Some d)))])))])"

text \<open>
  A world that reads \<open>now\<close> off the clock and answers the requests from two scripts;
  past the end of a script the API fails with a server error.
\<close>

definition scripted :: "int \<Rightarrow> (js_error + string option) list \<Rightarrow> (js_error + audio_response) list \<Rightarrow> world" where
  "scripted now texts speech =
     \<lparr> now_on_entry = now, now_on_success = now,
       text_request = (\<lambda>i. if 0 \<le> i \<and> i < int (length texts) then texts ! nat i else Inl server_error),
       speech_request = (\<lambda>k. if k < length speech then speech ! k else Inl server_error) \<rparr>"

section \<open>The events of a stream in closed form\<close>

text \<open>
  The texts that count in a chunk sequence: those that are present and not empty, in
  order of arrival (the guard \<open>if (textChunk)\<close> of the \<open>for await\<close> loop).
\<close>

definition chunk_texts :: "string option list \<Rightarrow> string list" where
  "chunk_texts chunks = filter (\<lambda>t. t \<noteq> []) (map (\<lambda>c. case c of None \<Rightarrow> [] | Some t \<Rightarrow> t) chunks)"

text \<open>The partial events for a list of texts on top of a running total.\<close>

definition partial_events :: "string \<Rightarrow> string list \<Rightarrow> event list" where
  "partial_events acc ts =
     map (\<lambda>n. \<lparr> text = acc @ concat (take (Suc n) ts), audioBase64 = None, done = None \<rparr>) [0..<length ts]"

section \<open>The playback pipeline: decoding the audio payload\<close>

text \<open>
  The decode step of \<open>playAudio\<close> can fail in two places: \<open>window.atob\<close> throws
  \<open>InvalidCharacterError\<close> on input that is not base64, and \<open>new Int16Array(buffer)\<close> throws
  \<open>RangeError\<close> on a buffer whose byte length is odd.
\<close>

datatype dom_error = InvalidCharacterError | RangeError

text \<open>
  \<open>window.atob\<close> is the browser's forgiving base64 decoder: it removes ASCII white space,
  removes one or two trailing \<open>=\<close> when the length is a multiple of 4, fails when the
  remaining length leaves remainder 1 modulo 4 or a character is outside the alphabet,
  and otherwise turns each character into six bits, emits the bytes, and discards the
  four or two bits left over at the end. The result is a string of code units below 256.
\<close>

definition alphabet :: string where
  "alphabet = ''ABCDEFGHIJKLMNOPQRSTUVWXYZabcdefghijklmnopqrstuvwxyz0123456789+/''"

fun position :: "'a \<Rightarrow> 'a list \<Rightarrow> nat option" where
  "position c [] = None"
| "position c (x # xs) = (if x = c then Some 0 else map_option Suc (position c xs))"

definition isAsciiWhitespace :: "char \<Rightarrow> bool" where
  "isAsciiWhitespace c = List.member [CHR 0x09, CHR 0x0A, CHR 0x0C, CHR 0x0D, CHR 0x20] c"

definition strip_padding :: "string \<Rightarrow> string" where
  "strip_padding d =
     (if length d mod 4 = 0 \<and> d \<noteq> [] \<and> last d = CHR ''=''
      then (if butlast d \<noteq> [] \<and> last (butlast d) = CHR ''='' then butlast (butlast d) else butlast d)
      else d)"

fun sextets_to_bytes :: "nat list \<Rightarrow> nat list" where
  "sextets_to_bytes (s1 # s2 # s3 # s4 # rest) =
     (s1 * 4 + s2 div 16) # (s2 mod 16 * 16 + s3 div 4) # (s3 mod 4 * 64 + s4) # sextets_to_bytes rest"
| "sextets_to_bytes [s1, s2, s3] = [s1 * 4 + s2 div 16, s2 mod 16 * 16 + s3 div 4]"
| "sextets_to_bytes [s1, s2] = [s1 * 4 + s2 div 16]"
| "sextets_to_bytes _ = []"

definition atob :: "string \<Rightarrow> dom_error + string" where
  "atob encoded =
     (let d = strip_padding (filter (\<lambda>c. \<not> isAsciiWhitespace c) encoded) in
      if length d mod 4 = 1 then Inl InvalidCharacterError
      else case those (map (\<lambda>c. position c alphabet) d) of
             None \<Rightarrow> Inl InvalidCharacterError
           | Some sextets \<Rightarrow> Inr (map char_of (sextets_to_bytes sextets)))"

text \<open>
  \<open>new Int16Array(buffer)\<close>: a view of the buffer as 16-bit integers, two bytes each, the
  low byte first (typed arrays use the byte order of the platform, little-endian on
  every platform the browser runs on).
\<close>

fun int16_view :: "8 word list \<Rightarrow> 16 word list" where
  "int16_view (lo # hi # rest) = word_cat hi lo # int16_view rest"
| "int16_view _ = []"

definition Int16Array :: "8 word list \<Rightarrow> dom_error + 16 word list" where
  "Int16Array buffer = (if length buffer mod 2 \<noteq> 0 then Inl RangeError else Inr (int16_view buffer))"

text \<open>
  Lines 98 to 112 of \<open>playAudio\<close>: the binary string, the \<open>Uint8Array\<close> of its char
  codes, the slice to an even length, the \<open>Int16Array\<close> view, and the division of every
  sample by 32768. The quotient of a 16-bit integer by \<open>2^15\<close> is exactly representable
  in a \<open>Float32Array\<close>, so the stored sample is that rational number.
\<close>

definition decodePcm :: "string \<Rightarrow> dom_error + real list" where
  "decodePcm base64 =
     (case atob base64 of
        Inl e \<Rightarrow> Inl e
      | Inr binaryString \<Rightarrow>
          (let bytes = map (\<lambda>c. of_nat (of_char c)) binaryString;
               buffer = take (length bytes - length bytes mod 2) bytes
           in case Int16Array buffer of
                Inl e \<Rightarrow> Inl e
              | Inr pcmData \<Rightarrow> Inr (map (\<lambda>x. real_of_int (sint x) / 32768) pcmData)))"

text \<open>
  The encoder of the round-trip property is not part of the repository. It is written
  here from the property's words: every sample as two bytes, low byte first, and the
  bytes in base64 with padding (\<open>btoa\<close> of the binary string).
\<close>

fun bytes_to_sextets :: "nat list \<Rightarrow> nat list" where
  "bytes_to_sextets (a # b # c # rest) =
     (a div 4) # (a mod 4 * 16 + b div 16) # (b mod 16 * 4 + c div 64) # (c mod 64) # bytes_to_sextets rest"
| "bytes_to_sextets [a, b] = [a div 4, a mod 4 * 16 + b div 16, b mod 16 * 4]"
| "bytes_to_sextets [a] = [a div 4, a mod 4 * 16]"
| "bytes_to_sextets [] = []"

definition btoa :: "string \<Rightarrow> string" where
  "btoa s = map (\<lambda>k. alphabet ! k) (bytes_to_sextets (map of_char s)) @
            replicate ((3 - length s mod 3) mod 3) (CHR ''='')"

definition pcm16le :: "16 word list \<Rightarrow> 8 word list" where
  "pcm16le samples = concat (map (\<lambda>x. [ucast x, ucast (drop_bit 8 x)]) samples)"

definition fromCharCodes :: "8 word list \<Rightarrow> string" where
  "fromCharCodes bytes = map (\<lambda>b. char_of (unat b)) bytes"

definition encodePcm :: "16 word list \<Rightarrow> string" where
  "encodePcm samples = btoa (fromCharCodes (pcm16le samples))"

section \<open>The fallback loop, case by case\<close>

lemma logged_simps [simp]:
  "fst (logged q r) = fst r" "fst (snd (logged q r)) = fst (snd r)" "snd (snd (logged q r)) = q # snd (snd r)"
  by (simp_all add: logged_def split: prod.splits)

declare fallback_loop.simps [simp del]

lemma loop_textModels: "textModels (fst (snd (fallback_loop w i s))) = textModels s"
proof (induction w i s rule: fallback_loop.induct)
  case (1 w i s)
  show ?case
    by (subst fallback_loop.simps)
       (auto simp: Let_def 1 split: sum.splits option.splits list.splits)
qed

lemma loop_exhausted:
  "\<not> i < int (length (textModels s)) \<Longrightarrow> fallback_loop w i s = (FallThrough, s, [])"
  by (subst fallback_loop.simps) simp

lemma loop_return:
  "i < int (length (textModels s)) \<Longrightarrow> text_request w i = Inr (Some t) \<Longrightarrow> trim t \<noteq> [] \<Longrightarrow>
   fallback_loop w i s =
     (Return (trim t), s\<lparr>currentTextModelIndex := i, lastModelCheck := now_on_success w\<rparr>,
      [(i, model_at (textModels s) i)])"
  by (subst fallback_loop.simps) (simp add: Let_def split: list.splits)

lemma loop_blank:
  "i < int (length (textModels s)) \<Longrightarrow> text_request w i = Inr t \<Longrightarrow> t = None \<or> trim (the t) = [] \<Longrightarrow>
   fallback_loop w i s = logged (i, model_at (textModels s) i) (fallback_loop w (i + 1) s)"
  by (subst fallback_loop.simps) (auto simp: Let_def split: list.splits option.splits)

lemma loop_advance:
  "i < int (length (textModels s)) - 1 \<Longrightarrow> text_request w i = Inl e \<Longrightarrow>
   fallback_loop w i s =
     logged (i, model_at (textModels s) i) (fallback_loop w (i + 1) (s\<lparr>currentTextModelIndex := i + 1\<rparr>))"
  by (subst fallback_loop.simps) (simp add: Let_def)

lemma loop_throw:
  "i < int (length (textModels s)) \<Longrightarrow> \<not> i < int (length (textModels s)) - 1 \<Longrightarrow>
   text_request w i = Inl e \<Longrightarrow>
   fallback_loop w i s = (Throw e, s, [(i, model_at (textModels s) i)])"
  by (subst fallback_loop.simps) (simp add: Let_def)

text \<open>The five cases above are exhaustive.\<close>

lemma loop_cases:
  obtains (exhausted) "\<not> i < int (length (textModels s))"
  | (return) t where "i < int (length (textModels s))" "text_request w i = Inr (Some t)" "trim t \<noteq> []"
  | (blank) t where "i < int (length (textModels s))" "text_request w i = Inr t" "t = None \<or> trim (the t) = []"
  | (advance) e where "i < int (length (textModels s)) - 1" "text_request w i = Inl e"
  | (throw) e where "i < int (length (textModels s))" "\<not> i < int (length (textModels s)) - 1" "text_request w i = Inl e"
proof (cases "i < int (length (textModels s))")
  case False
  then show ?thesis by (rule exhausted)
next
  case True
  show ?thesis
  proof (cases "text_request w i")
    case (Inl e)
    with True show ?thesis
      by (cases "i < int (length (textModels s)) - 1") (auto intro: advance throw)
  next
    case (Inr t)
    show ?thesis
    proof (cases "t = None \<or> trim (the t) = []")
      case True
      with \<open>i < int (length (textModels s))\<close> Inr show ?thesis by (intro blank)
    next
      case False
      with \<open>i < int (length (textModels s))\<close> Inr show ?thesis by (intro return [of "the t"]) auto
    qed
  qed
qed

lemma loop_valid:
  "0 \<le> i \<Longrightarrow> valid_index s \<Longrightarrow> valid_index (fst (snd (fallback_loop w i s)))"
proof (induction "nat (int (length (textModels s)) - i)" arbitrary: i s rule: less_induct)
  case less
  show ?case
  proof (cases rule: loop_cases [where i = i and s = s and w = w])
    case exhausted
    then show ?thesis by (simp add: loop_exhausted less.prems)
  next
    case (return t)
    then show ?thesis using less.prems by (simp add: loop_return valid_index_def)
  next
    case (blank t)
    then show ?thesis using less.prems by (simp add: loop_blank less.hyps)
  next
    case (advance e)
    then have "valid_index (fst (snd (fallback_loop w (i + 1) (s\<lparr>currentTextModelIndex := i + 1\<rparr>))))"
      using less.prems by (intro less.hyps) (simp_all add: valid_index_def)
    with advance show ?thesis by (simp add: loop_advance)
  next
    case (throw e)
    then show ?thesis by (simp add: loop_throw less.prems)
  qed
qed

lemma promote_valid: "valid_index s \<Longrightarrow> valid_index (promote w s)"
  by (auto simp: promote_def valid_index_def)

lemma promote_fields [simp]:
  "textModels (promote w s) = textModels s" "lastModelCheck (promote w s) = lastModelCheck s"
  "CHECK_INTERVAL (promote w s) = CHECK_INTERVAL s"
  by (simp_all add: promote_def)

lemma generateTextWithFallback_state:
  "fst (snd (generateTextWithFallback w s)) =
     fst (snd (fallback_loop w (currentTextModelIndex (promote w s)) (promote w s)))"
  by (simp add: generateTextWithFallback_def Let_def split: prod.splits loop_exit.splits)

lemma generateTextWithFallback_valid:
  "valid_index s \<Longrightarrow> valid_index (fst (snd (generateTextWithFallback w s)))"
  unfolding generateTextWithFallback_state
  using promote_valid [of s w] by (intro loop_valid) (simp_all add: valid_index_def)

lemma chat_state: "snd (chat w s) = fst (snd (generateTextWithFallback w s))"
  by (simp add: chat_def split: prod.splits sum.splits)

lemma chat_valid: "valid_index s \<Longrightarrow> valid_index (snd (chat w s))"
  by (simp add: chat_state generateTextWithFallback_valid)

lemma chat_never_throws: "\<exists>r. fst (chat w s) = Inr r"
  by (simp add: chat_def split: prod.splits sum.splits)

lemma stream_fallback_state: "snd (snd (stream_fallback evs w s)) = snd (chat w s)"
  by (simp add: stream_fallback_def split: prod.splits sum.splits)

lemma chatStream_state:
  "snd (snd (chatStream src w s)) = s \<or> snd (snd (chatStream src w s)) = snd (chat w s)"
  by (simp add: chatStream_def stream_fallback_state split: stream_source.splits prod.splits option.splits)

lemma perform_valid: "valid_index (perform s c)" if "valid_index s"
proof (cases c)
  case (ChatStream src w)
  then show ?thesis
    using chatStream_state [of src w s] that by (auto simp: chat_valid)
qed (simp_all add: chat_valid that)

lemma run_valid: "valid_index s \<Longrightarrow> valid_index (foldl perform s calls)"
  by (induction calls arbitrary: s) (simp_all add: perform_valid)

lemma constructed_valid: "valid_index constructed"
  by (simp add: valid_index_def constructed_def)

lemma upto_step: "i \<le> j \<Longrightarrow> [i..j] = i # [i + 1..j]"
  by (simp add: upto_rec1)

lemma loop_all_fail:
  "currentTextModelIndex s = i \<Longrightarrow> i < int (length (textModels s)) \<Longrightarrow>
   (\<forall>j. i \<le> j \<and> j < int (length (textModels s)) \<longrightarrow> isl (text_request w j)) \<Longrightarrow>
   fallback_loop w i s =
     (Throw (projl (text_request w (int (length (textModels s)) - 1))),
      s\<lparr>currentTextModelIndex := int (length (textModels s)) - 1\<rparr>,
      map (\<lambda>j. (j, model_at (textModels s) j)) [i..int (length (textModels s)) - 1])"
proof (induction "nat (int (length (textModels s)) - i)" arbitrary: i s rule: less_induct)
  case less
  from less.prems obtain e where e: "text_request w i = Inl e"
    by (cases "text_request w i") auto
  show ?case
  proof (cases "i < int (length (textModels s)) - 1")
    case True
    let ?s = "s\<lparr>currentTextModelIndex := i + 1\<rparr>"
    have "fallback_loop w (i + 1) ?s =
       (Throw (projl (text_request w (int (length (textModels ?s)) - 1))),
        ?s\<lparr>currentTextModelIndex := int (length (textModels ?s)) - 1\<rparr>,
        map (\<lambda>j. (j, model_at (textModels ?s) j)) [i + 1..int (length (textModels ?s)) - 1])"
      using less.prems True by (intro less.hyps) auto
    with True e show ?thesis
      by (simp add: loop_advance logged_def upto_step [of i])
  next
    case False
    with less.prems have i: "i = int (length (textModels s)) - 1" by simp
    have "s\<lparr>currentTextModelIndex := i\<rparr> = s"
      using less.prems by simp
    with False less.prems e i show ?thesis
      by (simp add: loop_throw)
  qed
qed

lemma loop_all_blank:
  "(\<forall>j. i \<le> j \<and> j < int (length (textModels s)) \<longrightarrow> blank (text_request w j)) \<Longrightarrow>
   fallback_loop w i s =
     (FallThrough, s, map (\<lambda>j. (j, model_at (textModels s) j)) [i..int (length (textModels s)) - 1])"
proof (induction "nat (int (length (textModels s)) - i)" arbitrary: i rule: less_induct)
  case less
  show ?case
  proof (cases "i < int (length (textModels s))")
    case False
    then show ?thesis by (simp add: loop_exhausted)
  next
    case True
    with less.prems have "blank (text_request w i)" by simp
    then obtain t where t: "text_request w i = Inr t" "t = None \<or> trim (the t) = []"
      by (auto simp: blank_def split: sum.splits option.splits)
    have "fallback_loop w (i + 1) s =
       (FallThrough, s, map (\<lambda>j. (j, model_at (textModels s) j)) [i + 1..int (length (textModels s)) - 1])"
      using less.prems True by (intro less.hyps) auto
    with True t show ?thesis
      by (simp add: loop_blank logged_def upto_step [of i])
  qed
qed

lemma loop_fallthrough_iff:
  "fst (fallback_loop w i s) = FallThrough \<longleftrightarrow>
   (\<forall>j. i \<le> j \<and> j < int (length (textModels s)) \<longrightarrow>
      blank (text_request w j) \<or> (isl (text_request w j) \<and> j < int (length (textModels s)) - 1))"
proof (induction "nat (int (length (textModels s)) - i)" arbitrary: i s rule: less_induct)
  case less
  let ?N = "int (length (textModels s))"
  let ?ok = "\<lambda>j. blank (text_request w j) \<or> (isl (text_request w j) \<and> j < ?N - 1)"
  have split: "(\<forall>j. i \<le> j \<and> j < ?N \<longrightarrow> ?ok j) \<longleftrightarrow> ?ok i \<and> (\<forall>j. i + 1 \<le> j \<and> j < ?N \<longrightarrow> ?ok j)"
    if "i < ?N"
  proof -
    have "i \<le> j \<longleftrightarrow> j = i \<or> i + 1 \<le> j" for j by auto
    with that show ?thesis by auto
  qed
  show ?case
  proof (cases rule: loop_cases [where i = i and s = s and w = w])
    case exhausted
    then show ?thesis by (auto simp: loop_exhausted)
  next
    case (return t)
    then have "\<not> ?ok i" by (simp add: blank_def)
    with return show ?thesis by (subst split) (simp_all add: loop_return)
  next
    case (blank t)
    then have "?ok i" by (auto simp: blank_def split: option.splits)
    moreover have "fst (fallback_loop w (i + 1) s) = FallThrough \<longleftrightarrow> (\<forall>j. i + 1 \<le> j \<and> j < ?N \<longrightarrow> ?ok j)"
      using blank by (intro less.hyps) simp
    ultimately show ?thesis using blank by (subst split) (simp_all add: loop_blank)
  next
    case (advance e)
    let ?s = "s\<lparr>currentTextModelIndex := i + 1\<rparr>"
    from advance have "?ok i" by simp
    moreover have "fst (fallback_loop w (i + 1) ?s) = FallThrough \<longleftrightarrow>
        (\<forall>j. i + 1 \<le> j \<and> j < int (length (textModels ?s)) \<longrightarrow>
           blank (text_request w j) \<or> (isl (text_request w j) \<and> j < int (length (textModels ?s)) - 1))"
      using advance by (intro less.hyps) simp
    ultimately show ?thesis using advance by (subst split) (simp_all add: loop_advance)
  next
    case (throw e)
    then have "\<not> ?ok i" by (simp add: blank_def)
    with throw show ?thesis by (subst split) (simp_all add: loop_throw)
  qed
qed

lemma loop_index_lower:
  "k \<le> currentTextModelIndex s \<Longrightarrow> k \<le> i \<Longrightarrow>
   k \<le> currentTextModelIndex (fst (snd (fallback_loop w i s)))"
proof (induction "nat (int (length (textModels s)) - i)" arbitrary: i s rule: less_induct)
  case less
  show ?case
  proof (cases rule: loop_cases [where i = i and s = s and w = w])
    case exhausted
    then show ?thesis using less.prems by (simp add: loop_exhausted)
  next
    case (return t)
    then show ?thesis using less.prems by (simp add: loop_return)
  next
    case (blank t)
    then have "k \<le> currentTextModelIndex (fst (snd (fallback_loop w (i + 1) s)))"
      using less.prems by (intro less.hyps) simp_all
    with blank show ?thesis by (simp add: loop_blank)
  next
    case (advance e)
    then have "k \<le> currentTextModelIndex (fst (snd (fallback_loop w (i + 1) (s\<lparr>currentTextModelIndex := i + 1\<rparr>))))"
      using less.prems by (intro less.hyps) simp_all
    with advance show ?thesis by (simp add: loop_advance)
  next
    case (throw e)
    then show ?thesis using less.prems by (simp add: loop_throw)
  qed
qed

lemma loop_fallthrough_advanced:
  "fst (fallback_loop w i s) = FallThrough \<Longrightarrow> i \<le> j \<Longrightarrow> j < int (length (textModels s)) \<Longrightarrow>
   isl (text_request w j) \<Longrightarrow>
   j < currentTextModelIndex (fst (snd (fallback_loop w i s)))"
proof (induction "nat (int (length (textModels s)) - i)" arbitrary: i s rule: less_induct)
  case less
  show ?case
  proof (cases rule: loop_cases [where i = i and s = s and w = w])
    case exhausted
    with less.prems show ?thesis by simp
  next
    case (return t)
    with less.prems show ?thesis by (simp add: loop_return)
  next
    case (blank t)
    with less.prems have "j \<noteq> i" by auto
    with less.prems blank
    have "j < currentTextModelIndex (fst (snd (fallback_loop w (i + 1) s)))"
      by (intro less.hyps) (simp_all add: loop_blank)
    with blank show ?thesis by (simp add: loop_blank)
  next
    case (advance e)
    let ?s = "s\<lparr>currentTextModelIndex := i + 1\<rparr>"
    from advance less.prems have ft: "fst (fallback_loop w (i + 1) ?s) = FallThrough"
      by (simp add: loop_advance)
    have "j < currentTextModelIndex (fst (snd (fallback_loop w (i + 1) ?s)))"
    proof (cases "j = i")
      case True
      have "i + 1 \<le> currentTextModelIndex (fst (snd (fallback_loop w (i + 1) ?s)))"
        by (rule loop_index_lower) simp_all
      with True show ?thesis by simp
    next
      case False
      with less.prems advance ft show ?thesis
        by (intro less.hyps) simp_all
    qed
    with advance show ?thesis by (simp add: loop_advance)
  next
    case (throw e)
    with less.prems show ?thesis by (simp add: loop_throw)
  qed
qed

lemma loop_fallthrough_lastModelCheck:
  "fst (fallback_loop w i s) = FallThrough \<Longrightarrow>
   lastModelCheck (fst (snd (fallback_loop w i s))) = lastModelCheck s"
proof (induction "nat (int (length (textModels s)) - i)" arbitrary: i s rule: less_induct)
  case less
  show ?case
  proof (cases rule: loop_cases [where i = i and s = s and w = w])
    case exhausted
    then show ?thesis by (simp add: loop_exhausted)
  next
    case (return t)
    with less.prems show ?thesis by (simp add: loop_return)
  next
    case (blank t)
    with less.prems have "lastModelCheck (fst (snd (fallback_loop w (i + 1) s))) = lastModelCheck s"
      by (intro less.hyps) (simp_all add: loop_blank)
    with blank show ?thesis by (simp add: loop_blank)
  next
    case (advance e)
    let ?s = "s\<lparr>currentTextModelIndex := i + 1\<rparr>"
    from advance less.prems
    have "lastModelCheck (fst (snd (fallback_loop w (i + 1) ?s))) = lastModelCheck ?s"
      by (intro less.hyps) (simp_all add: loop_advance)
    with advance show ?thesis by (simp add: loop_advance)
  next
    case (throw e)
    with less.prems show ?thesis by (simp add: loop_throw)
  qed
qed

section \<open>The index invariant\<close>

text \<open>
  Claim C3. After every operation of every sequence of calls (\<open>chat\<close>, \<open>chatStream\<close>,
  \<open>generateAudio\<close>), whatever the hosted API answers, \<open>currentTextModelIndex\<close> is a valid
  index into \<open>textModels\<close>: at least 0 and at most \<open>length - 1\<close>. This holds from the
  freshly constructed service, and from any state in which the index is valid.
\<close>

theorem currentTextModelIndex_stays_valid:
  "valid_index (foldl perform constructed calls) \<and>
   (valid_index s \<longrightarrow> valid_index (foldl perform s calls))"
  by (simp add: run_valid constructed_valid)

theorem currentTextModelIndex_stays_valid_witness:
  "valid_index constructed \<and>
   valid_index (foldl perform constructed
     [Chat (scripted 5 [Inl quota_error, Inr (Some ''Hello'')] []),
      ChatStream (StreamRejects server_error) (scripted 70000 [Inl quota_error, Inl quota_error] [])])"
  using currentTextModelIndex_stays_valid
    [of "[Chat (scripted 5 [Inl quota_error, Inr (Some ''Hello'')] []),
          ChatStream (StreamRejects server_error) (scripted 70000 [Inl quota_error, Inl quota_error] [])]"
        constructed]
  by (simp add: valid_index_def constructed_def)

lemma loop_throws_last:
  "fst (fallback_loop w i s) = Throw e \<Longrightarrow> text_request w (int (length (textModels s)) - 1) = Inl e"
proof (induction "nat (int (length (textModels s)) - i)" arbitrary: i s rule: less_induct)
  case less
  show ?case
  proof (cases rule: loop_cases [where i = i and s = s and w = w])
    case exhausted
    with less.prems show ?thesis by (simp add: loop_exhausted)
  next
    case (return t)
    with less.prems show ?thesis by (simp add: loop_return)
  next
    case (blank t)
    with less.prems have "fst (fallback_loop w (i + 1) s) = Throw e" by (simp add: loop_blank)
    with blank show ?thesis by (intro less.hyps [of s "i + 1"]) simp_all
  next
    case (advance e')
    let ?s = "s\<lparr>currentTextModelIndex := i + 1\<rparr>"
    from advance less.prems have "fst (fallback_loop w (i + 1) ?s) = Throw e" by (simp add: loop_advance)
    with advance have "text_request w (int (length (textModels ?s)) - 1) = Inl e"
      by (intro less.hyps [of ?s "i + 1"]) simp_all
    then show ?thesis by simp
  next
    case (throw e')
    with less.prems have "e' = e" "i = int (length (textModels s)) - 1" by (simp_all add: loop_throw)
    with throw show ?thesis by simp
  qed
qed

lemma generateTextWithFallback_throws_last:
  "fst (generateTextWithFallback w s) = Inl e \<Longrightarrow> text_request w (int (length (textModels s)) - 1) = Inl e"
  using loop_throws_last [of w "currentTextModelIndex (promote w s)" "promote w s" e]
  by (auto simp: generateTextWithFallback_def Let_def split: prod.splits loop_exit.splits)

lemma chat_on_error:
  "fst (generateTextWithFallback w s) = Inl e \<Longrightarrow>
   fst (chat w s) = Inr \<lparr> text = (if isQuotaError e then quota_text else error_text), audioBase64 = None \<rparr>"
  by (auto simp: chat_def split: prod.splits sum.splits)

lemma chat_on_text:
  "fst (generateTextWithFallback w s) = Inr t \<Longrightarrow>
   fst (chat w s) = Inr \<lparr> text = t, audioBase64 = audio_or_undefined w \<rparr>"
  by (auto simp: chat_def split: prod.splits sum.splits)

lemma texts_differ: "quota_text \<noteq> error_text" "quota_text \<noteq> refusal" "error_text \<noteq> refusal"
  by (simp_all add: quota_text_def error_text_def refusal_def)

lemma generateTextWithFallback_all_fail:
  assumes "valid_index s"
    and "\<forall>i. 0 \<le> i \<and> i < int (length (textModels s)) \<longrightarrow> isl (text_request w i)"
  shows "generateTextWithFallback w s =
     (Inl (projl (text_request w (int (length (textModels s)) - 1))),
      s\<lparr>currentTextModelIndex := int (length (textModels s)) - 1\<rparr>,
      map (\<lambda>j. (j, model_at (textModels s) j))
        [currentTextModelIndex (promote w s)..int (length (textModels s)) - 1])"
proof -
  let ?p = "promote w s"
  have v: "valid_index ?p" using assms(1) by (rule promote_valid)
  have "fallback_loop w (currentTextModelIndex ?p) ?p =
     (Throw (projl (text_request w (int (length (textModels ?p)) - 1))),
      ?p\<lparr>currentTextModelIndex := int (length (textModels ?p)) - 1\<rparr>,
      map (\<lambda>j. (j, model_at (textModels ?p) j)) [currentTextModelIndex ?p..int (length (textModels ?p)) - 1])"
    using v assms(2) by (intro loop_all_fail) (auto simp: valid_index_def)
  moreover have "?p\<lparr>currentTextModelIndex := n\<rparr> = s\<lparr>currentTextModelIndex := n\<rparr>" for n
    by (simp add: promote_def)
  ultimately show ?thesis
    by (simp add: generateTextWithFallback_def Let_def)
qed

section \<open>Quota failures on every candidate\<close>

text \<open>
  Claim C1, as amended. For every non-empty candidate list and every valid starting
  index, if the request fails with a quota-class error for each of the \<open>N\<close> candidates,
  then \<open>generateTextWithFallback\<close> rethrows the error of the last candidate; it does not
  return the built-in refusal string. \<open>chat\<close> catches that error and returns the
  quota-exhaustion message with no audio, without throwing, and leaves
  \<open>currentTextModelIndex\<close> at the last candidate.
\<close>

theorem quota_failures_surface_quota_text:
  assumes "valid_index s"
    and "\<forall>i. 0 \<le> i \<and> i < int (length (textModels s)) \<longrightarrow>
           (\<exists>e. text_request w i = Inl e \<and> isQuotaError e)"
  shows "\<exists>e. text_request w (int (length (textModels s)) - 1) = Inl e \<and> isQuotaError e \<and>
           fst (generateTextWithFallback w s) = Inl e \<and>
           chat w s = (Inr \<lparr> text = quota_text, audioBase64 = None \<rparr>,
                       s\<lparr>currentTextModelIndex := int (length (textModels s)) - 1\<rparr>)"
proof -
  let ?last = "int (length (textModels s)) - 1"
  from assms(1) have "0 \<le> ?last \<and> ?last < int (length (textModels s))"
    unfolding valid_index_def by linarith
  with assms(2) obtain e where e: "text_request w ?last = Inl e" "isQuotaError e"
    by blast
  from assms(2) have "\<forall>i. 0 \<le> i \<and> i < int (length (textModels s)) \<longrightarrow> isl (text_request w i)"
    by auto
  with assms(1) have g: "generateTextWithFallback w s =
     (Inl (projl (text_request w ?last)), s\<lparr>currentTextModelIndex := ?last\<rparr>,
      map (\<lambda>j. (j, model_at (textModels s) j)) [currentTextModelIndex (promote w s)..?last])"
    by (rule generateTextWithFallback_all_fail)
  with e have "chat w s = (Inr \<lparr> text = quota_text, audioBase64 = None \<rparr>, s\<lparr>currentTextModelIndex := ?last\<rparr>)"
    by (simp add: chat_def)
  with e g show ?thesis by simp
qed

theorem quota_failures_surface_quota_text_witness:
  "valid_index constructed \<and>
   text_request (scripted 0 [Inl quota_error, Inl quota_error] []) 0 = Inl quota_error \<and>
   text_request (scripted 0 [Inl quota_error, Inl quota_error] []) 1 = Inl quota_error \<and>
   isQuotaError quota_error \<and>
   chat (scripted 0 [Inl quota_error, Inl quota_error] []) constructed =
     (Inr \<lparr> text = quota_text, audioBase64 = None \<rparr>, constructed\<lparr>currentTextModelIndex := 1\<rparr>)"
proof -
  let ?w = "scripted 0 [Inl quota_error, Inl quota_error] []"
  have q: "isQuotaError quota_error"
    by (simp add: isQuotaError_def quota_error_def)
  have v: "valid_index constructed"
    by (simp add: valid_index_def constructed_def)
  have "text_request ?w i = Inl quota_error" if "0 \<le> i" "i < 2" for i
  proof -
    from that have "i = 0 \<or> i = 1" by auto
    then show ?thesis by (auto simp: scripted_def)
  qed
  then have h: "\<forall>i. 0 \<le> i \<and> i < int (length (textModels constructed)) \<longrightarrow>
           (\<exists>e. text_request ?w i = Inl e \<and> isQuotaError e)"
    using q by (simp add: constructed_def)
  show ?thesis
    using quota_failures_surface_quota_text [OF v h] q v
    by (simp add: scripted_def constructed_def)
qed

text \<open>
  Claim C1 as stated fails on the service as constructed: both of its candidates fail
  with a quota-class error, two requests are placed, and the text that comes back
  through \<open>chat\<close> is the quota-exhaustion message, which is not the refusal string.
\<close>

theorem refusal_after_quota_failures_counterexample:
  "isQuotaError quota_error \<and>
   text_request (scripted 0 [Inl quota_error, Inl quota_error] []) 0 = Inl quota_error \<and>
   text_request (scripted 0 [Inl quota_error, Inl quota_error] []) 1 = Inl quota_error \<and>
   generateTextWithFallback (scripted 0 [Inl quota_error, Inl quota_error] []) constructed =
     (Inl quota_error, constructed\<lparr>currentTextModelIndex := 1\<rparr>,
      [(0, Some ''gemini-3-flash-preview''), (1, Some ''gemini-2.5-flash'')]) \<and>
   fst (chat (scripted 0 [Inl quota_error, Inl quota_error] []) constructed) =
     Inr \<lparr> text = quota_text, audioBase64 = None \<rparr> \<and>
   quota_text \<noteq> refusal"
  by code_simp

section \<open>The boundary of chat\<close>

text \<open>
  Claim C2. Whatever the message and whatever the hosted API does, \<open>chat\<close> returns a
  reply and never throws. When \<open>generateTextWithFallback\<close> throws, the error is the one
  of the last candidate, and the reply is an in-character text with no audio: the
  quota-exhaustion message when that error is quota-class, the generic error message
  otherwise; the two messages differ.
\<close>

theorem chat_never_throws_past_boundary:
  "(\<exists>r. fst (chat w s) = Inr r) \<and>
   (\<forall>e. fst (generateTextWithFallback w s) = Inl e \<longrightarrow>
      text_request w (int (length (textModels s)) - 1) = Inl e \<and>
      fst (chat w s) =
        Inr \<lparr> text = (if isQuotaError e then quota_text else error_text), audioBase64 = None \<rparr>) \<and>
   quota_text \<noteq> error_text"
  using chat_never_throws [of w s]
  by (auto simp: texts_differ chat_on_error dest: generateTextWithFallback_throws_last)

theorem chat_never_throws_past_boundary_witness:
  "fst (generateTextWithFallback (scripted 0 [Inl quota_error, Inl server_error] []) constructed) = Inl server_error \<and>
   \<not> isQuotaError server_error \<and>
   fst (chat (scripted 0 [Inl quota_error, Inl server_error] []) constructed) =
     Inr \<lparr> text = error_text, audioBase64 = None \<rparr> \<and>
   fst (generateTextWithFallback (scripted 0 [Inl server_error, Inl quota_error] []) constructed) = Inl quota_error \<and>
   isQuotaError quota_error \<and>
   fst (chat (scripted 0 [Inl server_error, Inl quota_error] []) constructed) =
     Inr \<lparr> text = quota_text, audioBase64 = None \<rparr>"
proof -
  have a: "fst (generateTextWithFallback (scripted 0 [Inl quota_error, Inl server_error] []) constructed) = Inl server_error"
    by code_simp
  have b: "fst (generateTextWithFallback (scripted 0 [Inl server_error, Inl quota_error] []) constructed) = Inl quota_error"
    by code_simp
  have q: "isQuotaError quota_error" "\<not> isQuotaError server_error"
    by (simp_all add: isQuotaError_def quota_error_def server_error_def)
  show ?thesis
    using chat_never_throws_past_boundary [of "scripted 0 [Inl quota_error, Inl server_error] []" constructed]
      chat_never_throws_past_boundary [of "scripted 0 [Inl server_error, Inl quota_error] []" constructed]
      a b q
    by simp
qed

section \<open>The cool-down probe\<close>

lemma loop_first_request:
  "i < int (length (textModels s)) \<Longrightarrow>
   \<exists>rest. snd (snd (fallback_loop w i s)) = (i, model_at (textModels s) i) # rest"
  by (cases rule: loop_cases [where i = i and s = s and w = w])
     (simp_all add: loop_return loop_blank loop_advance loop_throw)

lemma generateTextWithFallback_requests:
  "snd (snd (generateTextWithFallback w s)) =
     snd (snd (fallback_loop w (currentTextModelIndex (promote w s)) (promote w s)))"
  by (simp add: generateTextWithFallback_def Let_def split: prod.splits loop_exit.splits)

lemma generateTextWithFallback_after_probe:
  "0 < currentTextModelIndex s \<Longrightarrow> lastModelCheck s + CHECK_INTERVAL s < now_on_entry w \<Longrightarrow>
   generateTextWithFallback w s = generateTextWithFallback w (s\<lparr>currentTextModelIndex := 0\<rparr>)"
  by (simp add: generateTextWithFallback_def promote_def)

text \<open>
  Claim C4. For every cool-down window \<open>CHECK_INTERVAL\<close> and every state with
  \<open>currentTextModelIndex > 0\<close>, a call of \<open>generateTextWithFallback\<close> at a time strictly later
  than \<open>lastModelCheck + CHECK_INTERVAL\<close> resets the index to 0 before the loop starts:
  the call is the fallback loop run from iteration 0 on the state with the index set to
  0, so its result, the fields it leaves and the requests it places are those of the
  same call made with \<open>currentTextModelIndex = 0\<close>. The first request it places (there is
  one as soon as the candidate list is not empty) is for the candidate at index 0.
\<close>

theorem cooldown_probe_starts_at_index_0:
  assumes "0 < currentTextModelIndex s"
    and "lastModelCheck s + CHECK_INTERVAL s < now_on_entry w"
  shows "currentTextModelIndex (promote w s) = 0 \<and>
         (textModels s \<noteq> [] \<longrightarrow>
            (\<exists>rest. snd (snd (generateTextWithFallback w s)) = (0, Some (textModels s ! 0)) # rest)) \<and>
         generateTextWithFallback w s = generateTextWithFallback w (s\<lparr>currentTextModelIndex := 0\<rparr>) \<and>
         generateTextWithFallback w s =
           (case fallback_loop w 0 (s\<lparr>currentTextModelIndex := 0\<rparr>) of
              (Return t, s', reqs) \<Rightarrow> (Inr t, s', reqs)
            | (Throw error, s', reqs) \<Rightarrow> (Inl error, s', reqs)
            | (FallThrough, s', reqs) \<Rightarrow> (Inr refusal, s', reqs))"
proof -
  from assms have p: "promote w s = s\<lparr>currentTextModelIndex := 0\<rparr>"
    by (simp add: promote_def)
  have "\<exists>rest. snd (snd (fallback_loop w 0 (promote w s))) = (0, model_at (textModels (promote w s)) 0) # rest"
    if "textModels s \<noteq> []"
    using that by (intro loop_first_request) simp
  then have first: "textModels s \<noteq> [] \<longrightarrow>
      (\<exists>rest. snd (snd (generateTextWithFallback w s)) = (0, Some (textModels s ! 0)) # rest)"
    by (auto simp: generateTextWithFallback_requests p model_at_def)
  have same: "generateTextWithFallback w s = generateTextWithFallback w (s\<lparr>currentTextModelIndex := 0\<rparr>)"
    using assms by (rule generateTextWithFallback_after_probe)
  have run: "generateTextWithFallback w s =
           (case fallback_loop w 0 (s\<lparr>currentTextModelIndex := 0\<rparr>) of
              (Return t, s', reqs) \<Rightarrow> (Inr t, s', reqs)
            | (Throw error, s', reqs) \<Rightarrow> (Inl error, s', reqs)
            | (FallThrough, s', reqs) \<Rightarrow> (Inr refusal, s', reqs))"
    by (simp add: generateTextWithFallback_def Let_def p)
  from p first same run show ?thesis
    by simp
qed


theorem cooldown_probe_starts_at_index_0_witness:
  "0 < currentTextModelIndex (constructed\<lparr>currentTextModelIndex := 1, lastModelCheck := 1000\<rparr>) \<and>
   lastModelCheck (constructed\<lparr>currentTextModelIndex := 1, lastModelCheck := 1000\<rparr>) +
     CHECK_INTERVAL (constructed\<lparr>currentTextModelIndex := 1, lastModelCheck := 1000\<rparr>)
     < now_on_entry (scripted 61001 [Inr (Some ''Still alive.'')] []) \<and>
   textModels (constructed\<lparr>currentTextModelIndex := 1, lastModelCheck := 1000\<rparr>) \<noteq> [] \<and>
   currentTextModelIndex
     (promote (scripted 61001 [Inr (Some ''Still alive.'')] [])
        (constructed\<lparr>currentTextModelIndex := 1, lastModelCheck := 1000\<rparr>)) = 0 \<and>
   snd (snd (generateTextWithFallback (scripted 61001 [Inr (Some ''Still alive.'')] [])
        (constructed\<lparr>currentTextModelIndex := 1, lastModelCheck := 1000\<rparr>))) =
     [(0, Some ''gemini-3-flash-preview'')] \<and>
   generateTextWithFallback (scripted 61001 [Inr (Some ''Still alive.'')] [])
        (constructed\<lparr>currentTextModelIndex := 1, lastModelCheck := 1000\<rparr>) =
     generateTextWithFallback (scripted 61001 [Inr (Some ''Still alive.'')] [])
        (constructed\<lparr>currentTextModelIndex := 1, lastModelCheck := 1000, currentTextModelIndex := 0\<rparr>) \<and>
   currentTextModelIndex (fst (snd (generateTextWithFallback (scripted 61001 [Inr None, Inr None] [])
        (constructed\<lparr>currentTextModelIndex := 1, lastModelCheck := 1000\<rparr>)))) = 0"
proof -
  let ?s = "constructed\<lparr>currentTextModelIndex := 1, lastModelCheck := 1000\<rparr>"
  let ?w = "scripted 61001 [Inr (Some ''Still alive.'')] []"
  let ?v = "scripted 61001 [Inr None, Inr None] []"
  have a: "0 < currentTextModelIndex ?s" by (simp add: constructed_def)
  have b: "lastModelCheck ?s + CHECK_INTERVAL ?s < now_on_entry ?w"
    by (simp add: constructed_def scripted_def)
  have b': "lastModelCheck ?s + CHECK_INTERVAL ?s < now_on_entry ?v"
    by (simp add: constructed_def scripted_def)
  have n: "textModels ?s \<noteq> []" by (simp add: constructed_def)
  have c: "snd (snd (generateTextWithFallback ?w ?s)) = [(0, Some ''gemini-3-flash-preview'')]"
    by code_simp
  have d: "currentTextModelIndex (fst (snd (generateTextWithFallback ?v (?s\<lparr>currentTextModelIndex := 0\<rparr>)))) = 0"
    by code_simp
  note first = cooldown_probe_starts_at_index_0 [OF a b]
  note second = cooldown_probe_starts_at_index_0 [OF a b']
  from first have p0: "currentTextModelIndex (promote ?w ?s) = 0" and
    f: "generateTextWithFallback ?w ?s = generateTextWithFallback ?w (?s\<lparr>currentTextModelIndex := 0\<rparr>)"
    by (rule conjunct1, rule conjunct2 [THEN conjunct2, THEN conjunct1])
  from second have "generateTextWithFallback ?v ?s = generateTextWithFallback ?v (?s\<lparr>currentTextModelIndex := 0\<rparr>)"
    by (rule conjunct2 [THEN conjunct2, THEN conjunct1])
  with d have e: "currentTextModelIndex (fst (snd (generateTextWithFallback ?v ?s))) = 0"
    by (simp only:)
  show ?thesis
    by (intro conjI a b n p0 c f e)
qed

section \<open>Speech synthesis: one retry, then text only\<close>

text \<open>
  Claim C5. \<open>generateAudio\<close> runs the speech request under \<open>withRetry\<close> with a budget of one
  retry and a delay of 500 ms. If the first request fails with a quota-class error, the
  timeline is exactly: first request, a 500 ms timer, second request; the outcome is the
  second request's, and when that fails too the result is no audio. If the first
  request fails with another error there is no retry and the result is no audio. In no
  case does \<open>generateAudio\<close> throw, and whenever text generation succeeded the reply of
  \<open>chat\<close> carries that text, with whatever audio \<open>generateAudio\<close> returned.
\<close>

theorem speech_retried_once_then_dropped:
  "(\<forall>e. speech_request w 0 = Inl e \<and> isQuotaError e \<longrightarrow>
      snd (generateAudio w) = [Invoke 0, Timeout 500, Invoke 1] \<and>
      fst (generateAudio w) =
        Inr (case speech_request w 1 of Inl e' \<Rightarrow> None | Inr r \<Rightarrow> inlineAudio r)) \<and>
   (\<forall>e. speech_request w 0 = Inl e \<and> \<not> isQuotaError e \<longrightarrow>
      generateAudio w = (Inr None, [Invoke 0])) \<and>
   (\<exists>a. fst (generateAudio w) = Inr a \<and>
      (\<forall>t. fst (generateTextWithFallback w s) = Inr t \<longrightarrow>
         fst (chat w s) = Inr \<lparr> text = t, audioBase64 = a \<rparr>))"
proof (intro conjI allI impI)
  fix e assume "speech_request w 0 = Inl e \<and> isQuotaError e"
  then show "snd (generateAudio w) = [Invoke 0, Timeout 500, Invoke 1]"
    by (simp add: generateAudio_def split: sum.splits prod.splits)
next
  fix e assume "speech_request w 0 = Inl e \<and> isQuotaError e"
  then show "fst (generateAudio w) =
        Inr (case speech_request w 1 of Inl e' \<Rightarrow> None | Inr r \<Rightarrow> inlineAudio r)"
    by (simp add: generateAudio_def split: sum.splits prod.splits)
next
  fix e assume "speech_request w 0 = Inl e \<and> \<not> isQuotaError e"
  then show "generateAudio w = (Inr None, [Invoke 0])"
    by (simp add: generateAudio_def)
next
  have "fst (generateAudio w) = Inr (audio_or_undefined w)"
    by (simp add: audio_or_undefined_def generateAudio_def split: sum.splits prod.splits)
  then show "\<exists>a. fst (generateAudio w) = Inr a \<and>
      (\<forall>t. fst (generateTextWithFallback w s) = Inr t \<longrightarrow>
         fst (chat w s) = Inr \<lparr> text = t, audioBase64 = a \<rparr>)"
    by (auto simp: chat_on_text)
qed

theorem speech_retried_once_then_dropped_witness:
  "speech_request (scripted 0 [Inr (Some ''Hello.'')] [Inl quota_error, Inl quota_error]) 0 = Inl quota_error \<and>
   isQuotaError quota_error \<and>
   generateAudio (scripted 0 [Inr (Some ''Hello.'')] [Inl quota_error, Inl quota_error]) =
     (Inr None, [Invoke 0, Timeout 500, Invoke 1]) \<and>
   fst (generateTextWithFallback (scripted 0 [Inr (Some ''Hello.'')] [Inl quota_error, Inl quota_error]) constructed) =
     Inr ''Hello.'' \<and>
   fst (chat (scripted 0 [Inr (Some ''Hello.'')] [Inl quota_error, Inl quota_error]) constructed) =
     Inr \<lparr> text = ''Hello.'', audioBase64 = None \<rparr> \<and>
   speech_request (scripted 0 [] [Inl server_error]) 0 = Inl server_error \<and>
   \<not> isQuotaError server_error \<and>
   generateAudio (scripted 0 [] [Inl server_error]) = (Inr None, [Invoke 0])"
proof -
  let ?w = "scripted 0 [Inr (Some ''Hello.'')] [Inl quota_error, Inl quota_error]"
  let ?v = "scripted 0 [] [Inl server_error]"
  have q: "isQuotaError quota_error" "\<not> isQuotaError server_error"
    by (simp_all add: isQuotaError_def quota_error_def server_error_def)
  have w0: "speech_request ?w 0 = Inl quota_error" and w1: "speech_request ?w 1 = Inl quota_error"
    and v0: "speech_request ?v 0 = Inl server_error"
    by (simp_all add: scripted_def)
  have g: "fst (generateTextWithFallback ?w constructed) = Inr ''Hello.''"
    by code_simp
  note first = speech_retried_once_then_dropped [of ?w constructed]
  note second = speech_retried_once_then_dropped [of ?v constructed]
  from first w0 w1 q(1) have a: "generateAudio ?w = (Inr None, [Invoke 0, Timeout 500, Invoke 1])"
    by (simp add: prod_eq_iff)
  from first a g have c: "fst (chat ?w constructed) = Inr \<lparr> text = ''Hello.'', audioBase64 = None \<rparr>"
    by auto
  from second v0 q(2) have b: "generateAudio ?v = (Inr None, [Invoke 0])"
    by simp
  from q w0 v0 a b c g show ?thesis
    by simp
qed

section \<open>Streaming\<close>

lemma partial_events_Nil [simp]: "partial_events acc [] = []"
  by (simp add: partial_events_def)

lemma partial_events_Cons:
  "partial_events acc (t # ts) =
     \<lparr> text = acc @ t, audioBase64 = None, done = None \<rparr> # partial_events (acc @ t) ts"
proof -
  have "[0..<length (t # ts)] = 0 # map Suc [0..<length ts]"
    by (simp add: upt_conv_Cons map_Suc_upt del: upt_Suc)
  then show ?thesis
    by (simp add: partial_events_def comp_def del: upt_Suc)
qed

lemma accumulate_eq:
  "accumulate acc chunks = (acc @ concat (chunk_texts chunks), partial_events acc (chunk_texts chunks))"
proof (induction chunks arbitrary: acc)
  case Nil
  show ?case by (simp add: chunk_texts_def)
next
  case (Cons c chunks)
  show ?case
  proof (cases "c = None \<or> c = Some []")
    case True
    then have "accumulate acc (c # chunks) = accumulate acc chunks"
      by auto
    moreover from True have "chunk_texts (c # chunks) = chunk_texts chunks"
      by (auto simp: chunk_texts_def)
    ultimately show ?thesis by (simp add: Cons.IH)
  next
    case False
    then obtain x xs where c: "c = Some (x # xs)"
      by (cases c; cases "the c") auto
    then have "chunk_texts (c # chunks) = (x # xs) # chunk_texts chunks"
      by (simp add: chunk_texts_def)
    with c show ?thesis
      by (simp add: Cons.IH partial_events_Cons)
  qed
qed

lemma partial_events_length [simp]: "length (partial_events acc ts) = length ts"
  by (simp add: partial_events_def)

lemma partial_events_nth:
  "n < length ts \<Longrightarrow> text (partial_events acc ts ! n) = acc @ concat (take (Suc n) ts)"
  by (simp add: partial_events_def del: upt_Suc)

lemma partial_events_not_done: "ev \<in> set (partial_events acc ts) \<Longrightarrow> done ev = None"
  by (auto simp: partial_events_def)

lemma chatStream_completed:
  "chatStream (Stream chunks None) w s =
     (partial_events [] (chunk_texts chunks) @
        [\<lparr> text = concat (chunk_texts chunks), audioBase64 = audio_or_undefined w, done = Some True \<rparr>],
      None, s)"
  by (simp add: chatStream_def accumulate_eq)

lemma chatStream_grows:
  assumes "Suc n < length (fst (chatStream (Stream chunks None) w s))"
  shows "\<exists>c. text (fst (chatStream (Stream chunks None) w s) ! Suc n) =
              text (fst (chatStream (Stream chunks None) w s) ! n) @ c"
proof -
  let ?ts = "chunk_texts chunks"
  from assms have n: "n < length ?ts" by (simp add: chatStream_completed)
  then have a: "text (fst (chatStream (Stream chunks None) w s) ! n) = concat (take (Suc n) ?ts)"
    by (simp add: chatStream_completed nth_append partial_events_nth)
  show ?thesis
  proof (cases "Suc n < length ?ts")
    case True
    then have "text (fst (chatStream (Stream chunks None) w s) ! Suc n) = concat (take (Suc (Suc n)) ?ts)"
      by (simp add: chatStream_completed nth_append partial_events_nth)
    also have "\<dots> = concat (take (Suc n) ?ts) @ ?ts ! Suc n"
      using True by (simp add: take_Suc_conv_app_nth)
    finally show ?thesis using a by simp
  next
    case False
    with n have "Suc n = length ?ts" by simp
    then have "text (fst (chatStream (Stream chunks None) w s) ! Suc n) = concat ?ts"
      by (simp add: chatStream_completed nth_append)
    moreover from \<open>Suc n = length ?ts\<close> have "take (Suc n) ?ts = ?ts" by simp
    ultimately show ?thesis using a by simp
  qed
qed

text \<open>
  Claim C6, as amended. For every finite chunk sequence of a stream that completes,
  \<open>chatStream\<close> yields one partial event for each chunk whose text is present and not
  empty, carrying the concatenation of those texts so far; a chunk whose text is absent
  or empty yields nothing. Each event's text extends the text of the event before it.
  Exactly one terminal event follows, carrying the full accumulated text and the audio.
  The chunks \<open>Hello\<close>, \<open>, \<close>, \<open>world\<close> yield the texts \<open>Hello\<close>, \<open>Hello, \<close>, \<open>Hello, world\<close> in
  that order and then the terminal event with \<open>Hello, world\<close>.
\<close>

theorem stream_emits_running_total:
  "chatStream (Stream chunks None) w s =
     (partial_events [] (chunk_texts chunks) @
        [\<lparr> text = concat (chunk_texts chunks), audioBase64 = audio_or_undefined w, done = Some True \<rparr>],
      None, s) \<and>
   (\<forall>n. Suc n < length (fst (chatStream (Stream chunks None) w s)) \<longrightarrow>
      (\<exists>c. text (fst (chatStream (Stream chunks None) w s) ! Suc n) =
            text (fst (chatStream (Stream chunks None) w s) ! n) @ c)) \<and>
   fst (chatStream (Stream [Some ''Hello'', Some '', '', Some ''world''] None) w s) =
     [\<lparr> text = ''Hello'', audioBase64 = None, done = None \<rparr>,
      \<lparr> text = ''Hello, '', audioBase64 = None, done = None \<rparr>,
      \<lparr> text = ''Hello, world'', audioBase64 = None, done = None \<rparr>,
      \<lparr> text = ''Hello, world'', audioBase64 = audio_or_undefined w, done = Some True \<rparr>]"
proof (intro conjI allI impI)
  show "fst (chatStream (Stream [Some ''Hello'', Some '', '', Some ''world''] None) w s) =
     [\<lparr> text = ''Hello'', audioBase64 = None, done = None \<rparr>,
      \<lparr> text = ''Hello, '', audioBase64 = None, done = None \<rparr>,
      \<lparr> text = ''Hello, world'', audioBase64 = None, done = None \<rparr>,
      \<lparr> text = ''Hello, world'', audioBase64 = audio_or_undefined w, done = Some True \<rparr>]"
    by (simp add: chatStream_def)
next
  show "chatStream (Stream chunks None) w s =
     (partial_events [] (chunk_texts chunks) @
        [\<lparr> text = concat (chunk_texts chunks), audioBase64 = audio_or_undefined w, done = Some True \<rparr>],
      None, s)"
    by (rule chatStream_completed)
next
  fix n assume "Suc n < length (fst (chatStream (Stream chunks None) w s))"
  then show "\<exists>c. text (fst (chatStream (Stream chunks None) w s) ! Suc n) =
            text (fst (chatStream (Stream chunks None) w s) ! n) @ c"
    by (rule chatStream_grows)
qed

theorem stream_emits_running_total_witness:
  "fst (chatStream (Stream [Some ''Hello'', Some '', '', Some ''world''] None) (scripted 0 [] [Inr (spoken ''UklGRg=='')]) constructed) =
     [\<lparr> text = ''Hello'', audioBase64 = None, done = None \<rparr>,
      \<lparr> text = ''Hello, '', audioBase64 = None, done = None \<rparr>,
      \<lparr> text = ''Hello, world'', audioBase64 = None, done = None \<rparr>,
      \<lparr> text = ''Hello, world'', audioBase64 = Some ''UklGRg=='', done = Some True \<rparr>] \<and>
   Suc 0 < length (fst (chatStream (Stream [Some ''Hello'', Some '', '', Some ''world''] None) (scripted 0 [] [Inr (spoken ''UklGRg=='')]) constructed)) \<and>
   text (fst (chatStream (Stream [Some ''Hello'', Some '', '', Some ''world''] None) (scripted 0 [] [Inr (spoken ''UklGRg=='')]) constructed) ! Suc 0) =
   text (fst (chatStream (Stream [Some ''Hello'', Some '', '', Some ''world''] None) (scripted 0 [] [Inr (spoken ''UklGRg=='')]) constructed) ! 0) @ '', ''"
proof -
  have a: "audio_or_undefined (scripted 0 [] [Inr (spoken ''UklGRg=='')]) = Some ''UklGRg==''"
    by code_simp
  note t = stream_emits_running_total [of "[Some ''Hello'', Some '', '', Some ''world'']" "scripted 0 [] [Inr (spoken ''UklGRg=='')]" constructed,
      THEN conjunct2, THEN conjunct2]
  have ev: "fst (chatStream (Stream [Some ''Hello'', Some '', '', Some ''world''] None) (scripted 0 [] [Inr (spoken ''UklGRg=='')]) constructed) =
     [\<lparr> text = ''Hello'', audioBase64 = None, done = None \<rparr>,
      \<lparr> text = ''Hello, '', audioBase64 = None, done = None \<rparr>,
      \<lparr> text = ''Hello, world'', audioBase64 = None, done = None \<rparr>,
      \<lparr> text = ''Hello, world'', audioBase64 = Some ''UklGRg=='', done = Some True \<rparr>]"
    using t by (simp only: a)
  show ?thesis
    unfolding ev by simp
qed

text \<open>
  Claim C6 as stated asks for an event after every chunk arrival. Four chunks arrive
  here, the second with an empty text and the third with none; two partial events are
  yielded, not four.
\<close>

theorem stream_emits_after_every_chunk_counterexample:
  "fst (chatStream (Stream [Some ''Hello'', Some '''', None, Some ''world''] None) (scripted 0 [] []) constructed) =
     [\<lparr> text = ''Hello'', audioBase64 = None, done = None \<rparr>,
      \<lparr> text = ''Helloworld'', audioBase64 = None, done = None \<rparr>,
      \<lparr> text = ''Helloworld'', audioBase64 = None, done = Some True \<rparr>] \<and>
   length [Some ''Hello'', Some '''', None, Some ''world''] = 4 \<and>
   length (fst (chatStream (Stream [Some ''Hello'', Some '''', None, Some ''world''] None) (scripted 0 [] []) constructed)) = 3"
  by code_simp

text \<open>
  Claim C7. If the streaming request fails, outright or after some chunks, \<open>chatStream\<close>
  runs \<open>chat\<close> and yields its result as the terminal event: the generator does not throw,
  the service's fields are those \<open>chat\<close> leaves, and among the events yielded exactly one
  is terminal, of the same shape as after a completed stream.
\<close>

theorem stream_failure_falls_back_to_chat:
  "\<exists>r s'. chat w s = (Inr r, s') \<and>
     chatStream (StreamRejects e) w s =
       ([\<lparr> text = text r, audioBase64 = audioBase64 r, done = Some True \<rparr>], None, s') \<and>
     chatStream (Stream chunks (Some e)) w s =
       (partial_events [] (chunk_texts chunks) @
          [\<lparr> text = text r, audioBase64 = audioBase64 r, done = Some True \<rparr>], None, s') \<and>
     filter (\<lambda>ev. done ev = Some True) (fst (chatStream (Stream chunks (Some e)) w s)) =
       [\<lparr> text = text r, audioBase64 = audioBase64 r, done = Some True \<rparr>]"
proof -
  obtain r s' where c: "chat w s = (Inr r, s')"
    using chat_never_throws [of w s] by (cases "chat w s") auto
  have ext: "reply.extend r \<lparr> done = Some True \<rparr> = \<lparr> text = text r, audioBase64 = audioBase64 r, done = Some True \<rparr>"
    by (cases r) (simp add: reply.extend_def)
  have fb: "stream_fallback evs w s =
      (evs @ [\<lparr> text = text r, audioBase64 = audioBase64 r, done = Some True \<rparr>], None, s')" for evs
    by (simp add: stream_fallback_def c ext)
  have nd: "filter (\<lambda>ev. done ev = Some True) (partial_events [] (chunk_texts chunks)) = []"
    by (auto simp: filter_empty_conv dest: partial_events_not_done)
  show ?thesis
    by (intro exI [of _ r] exI [of _ s'])
      (simp add: c chatStream_def fb accumulate_eq nd)
qed

section \<open>Blank replies and the refusal string\<close>

text \<open>
  Claim C10, as amended. If every candidate from the starting index on is fulfilled
  with blank text, \<open>generateTextWithFallback\<close> places a request for each of them and
  returns the refusal string, and the fields of the service are as the cool-down probe
  left them: the loop changes neither \<open>currentTextModelIndex\<close> nor \<open>lastModelCheck\<close>.
  This is not the only way to the refusal string: the loop runs off its end exactly when
  every candidate from the starting index on is either blank or, not being the last,
  rejected. Whenever the loop runs off its end, \<open>lastModelCheck\<close> is as it was, and after a
  rejection the index has advanced: \<open>currentTextModelIndex\<close> is greater than the index of
  every rejected candidate.
\<close>

theorem refusal_when_replies_are_blank:
  "((\<forall>j. currentTextModelIndex (promote w s) \<le> j \<and> j < int (length (textModels s)) \<longrightarrow>
        blank (text_request w j)) \<longrightarrow>
      generateTextWithFallback w s =
        (Inr refusal, promote w s,
         map (\<lambda>j. (j, model_at (textModels s) j))
           [currentTextModelIndex (promote w s)..int (length (textModels s)) - 1])) \<and>
   (fst (fallback_loop w i s) = FallThrough \<longleftrightarrow>
      (\<forall>j. i \<le> j \<and> j < int (length (textModels s)) \<longrightarrow>
         blank (text_request w j) \<or>
         (isl (text_request w j) \<and> j < int (length (textModels s)) - 1))) \<and>
   (fst (fallback_loop w i s) = FallThrough \<longrightarrow>
      lastModelCheck (fst (snd (fallback_loop w i s))) = lastModelCheck s \<and>
      (\<forall>j. i \<le> j \<and> j < int (length (textModels s)) \<and> isl (text_request w j) \<longrightarrow>
         j < currentTextModelIndex (fst (snd (fallback_loop w i s)))))"
proof (intro conjI impI allI)
  assume "\<forall>j. currentTextModelIndex (promote w s) \<le> j \<and> j < int (length (textModels s)) \<longrightarrow>
        blank (text_request w j)"
  then have "fallback_loop w (currentTextModelIndex (promote w s)) (promote w s) =
     (FallThrough, promote w s,
      map (\<lambda>j. (j, model_at (textModels (promote w s)) j))
        [currentTextModelIndex (promote w s)..int (length (textModels (promote w s))) - 1])"
    by (intro loop_all_blank) simp
  then show "generateTextWithFallback w s =
        (Inr refusal, promote w s,
         map (\<lambda>j. (j, model_at (textModels s) j))
           [currentTextModelIndex (promote w s)..int (length (textModels s)) - 1])"
    by (simp add: generateTextWithFallback_def Let_def)
next
  show "fst (fallback_loop w i s) = FallThrough \<longleftrightarrow>
      (\<forall>j. i \<le> j \<and> j < int (length (textModels s)) \<longrightarrow>
         blank (text_request w j) \<or>
         (isl (text_request w j) \<and> j < int (length (textModels s)) - 1))"
    by (rule loop_fallthrough_iff)
next
  assume "fst (fallback_loop w i s) = FallThrough"
  then show "lastModelCheck (fst (snd (fallback_loop w i s))) = lastModelCheck s"
    by (rule loop_fallthrough_lastModelCheck)
next
  fix j
  assume "fst (fallback_loop w i s) = FallThrough"
    and "i \<le> j \<and> j < int (length (textModels s)) \<and> isl (text_request w j)"
  then show "j < currentTextModelIndex (fst (snd (fallback_loop w i s)))"
    by (intro loop_fallthrough_advanced) simp_all
qed

theorem refusal_when_replies_are_blank_witness:
  "blank (text_request (scripted 7 [Inr None, Inr (Some ''  '')] []) 0) \<and>
   blank (text_request (scripted 7 [Inr None, Inr (Some ''  '')] []) 1) \<and>
   generateTextWithFallback (scripted 7 [Inr None, Inr (Some ''  '')] []) constructed =
     (Inr refusal, constructed,
      [(0, Some ''gemini-3-flash-preview''), (1, Some ''gemini-2.5-flash'')]) \<and>
   fst (fallback_loop (scripted 7 [Inr None, Inr (Some ''  '')] []) 0 constructed) = FallThrough \<and>
   fst (fallback_loop (scripted 7 [Inl quota_error, Inr None] []) 0 constructed) = FallThrough \<and>
   isl (text_request (scripted 7 [Inl quota_error, Inr None] []) 0) \<and>
   0 < currentTextModelIndex (fst (snd (fallback_loop (scripted 7 [Inl quota_error, Inr None] []) 0 constructed))) \<and>
   lastModelCheck (fst (snd (fallback_loop (scripted 7 [Inl quota_error, Inr None] []) 0 constructed))) =
     lastModelCheck constructed"
proof -
  let ?w = "scripted 7 [Inr None, Inr (Some ''  '')] []"
  let ?v = "scripted 7 [Inl quota_error, Inr None] []"
  have p: "promote ?w constructed = constructed"
    by (simp add: promote_def constructed_def)
  have b: "blank (text_request ?w j)" if "0 \<le> j" "j < 2" for j
  proof -
    from that have "j = 0 \<or> j = 1" by auto
    then show ?thesis by (auto simp: scripted_def blank_def trim_def isWhiteSpace_def)
  qed
  then have h: "\<forall>j. currentTextModelIndex (promote ?w constructed) \<le> j \<and>
      j < int (length (textModels constructed)) \<longrightarrow> blank (text_request ?w j)"
    by (simp add: p) (simp add: constructed_def)
  have first: "blank (text_request ?w 0) \<and> blank (text_request ?w 1) \<and>
     generateTextWithFallback ?w constructed =
       (Inr refusal, constructed,
        [(0, Some ''gemini-3-flash-preview''), (1, Some ''gemini-2.5-flash'')]) \<and>
     fst (fallback_loop ?w 0 constructed) = FallThrough"
    using refusal_when_replies_are_blank [of ?w constructed 0] h b [of 0] b [of 1]
    by (simp add: p) (simp add: constructed_def model_at_def upto_rec1)
  have ft: "fst (fallback_loop ?v 0 constructed) = FallThrough"
    by code_simp
  have r: "isl (text_request ?v 0)"
    by (simp add: scripted_def)
  have range: "(0::int) \<le> 0 \<and> 0 < int (length (textModels constructed)) \<and> isl (text_request ?v 0)"
    using r by (simp add: constructed_def)
  note second = refusal_when_replies_are_blank [of ?v constructed 0, THEN conjunct2, THEN conjunct2, rule_format, OF ft]
  from second have l: "lastModelCheck (fst (snd (fallback_loop ?v 0 constructed))) = lastModelCheck constructed"
    by (rule conjunct1)
  from second have "\<forall>j. 0 \<le> j \<and> j < int (length (textModels constructed)) \<and> isl (text_request ?v j) \<longrightarrow>
         j < currentTextModelIndex (fst (snd (fallback_loop ?v 0 constructed)))"
    by (rule conjunct2)
  with range have adv: "0 < currentTextModelIndex (fst (snd (fallback_loop ?v 0 constructed)))"
    by blast
  from first ft r adv l show ?thesis
    by (simp only:)
qed

text \<open>
  Claim C10 as stated fails in two ways. The first candidate is rejected, the second is
  fulfilled with empty text, and the refusal string comes back with the index moved from
  0 to 1: not every candidate was fulfilled. And with both candidates blank, but the
  index at 1 and the cool-down window elapsed, the refusal string comes back with the
  index reset from 1 to 0: the index is not left unchanged.
\<close>

theorem refusal_only_after_blank_replies_counterexample:
  "text_request (scripted 7 [Inl server_error, Inr (Some '''')] []) 0 = Inl server_error \<and>
   \<not> blank (text_request (scripted 7 [Inl server_error, Inr (Some '''')] []) 0) \<and>
   fst (generateTextWithFallback (scripted 7 [Inl server_error, Inr (Some '''')] []) constructed) = Inr refusal \<and>
   currentTextModelIndex constructed = 0 \<and>
   currentTextModelIndex (fst (snd (generateTextWithFallback (scripted 7 [Inl server_error, Inr (Some '''')] []) constructed))) = 1 \<and>
   blank (text_request (scripted 70000 [Inr None, Inr (Some '''')] []) 0) \<and>
   blank (text_request (scripted 70000 [Inr None, Inr (Some '''')] []) 1) \<and>
   currentTextModelIndex (constructed\<lparr>currentTextModelIndex := 1\<rparr>) = 1 \<and>
   generateTextWithFallback (scripted 70000 [Inr None, Inr (Some '''')] []) (constructed\<lparr>currentTextModelIndex := 1\<rparr>) =
     (Inr refusal, constructed\<lparr>currentTextModelIndex := 0\<rparr>,
      [(0, Some ''gemini-3-flash-preview''), (1, Some ''gemini-2.5-flash'')])"
  by code_simp

section \<open>Base64 and PCM\<close>

lemma position_nth: "distinct xs \<Longrightarrow> k < length xs \<Longrightarrow> position (xs ! k) xs = Some k"
proof (induction xs arbitrary: k)
  case Nil
  then show ?case by simp
next
  case (Cons x xs)
  show ?case
  proof (cases k)
    case 0
    then show ?thesis by simp
  next
    case (Suc j)
    with Cons.prems have "xs ! j \<in> set xs" "x \<notin> set xs" by auto
    then have "x \<noteq> xs ! j" by auto
    with Suc Cons show ?thesis by simp
  qed
qed

lemma alphabet_length: "length alphabet = 64"
  by (simp add: alphabet_def)

lemma alphabet_distinct: "distinct alphabet"
  by (simp add: alphabet_def)

lemma alphabet_plain: "c \<in> set alphabet \<Longrightarrow> c \<noteq> CHR ''='' \<and> \<not> isAsciiWhitespace c"
  by (auto simp: alphabet_def isAsciiWhitespace_def)

lemma sextet_position: "k < 64 \<Longrightarrow> position (alphabet ! k) alphabet = Some k"
  by (simp add: position_nth alphabet_distinct alphabet_length)



lemma div_16_16: "(b::nat) < 256 \<Longrightarrow> b div 16 div 16 = 0"
  by simp

lemma div_64_4: "(c::nat) < 256 \<Longrightarrow> c div 64 div 4 = 0"
  by simp

lemma first_byte: "(b::nat) < 256 \<Longrightarrow> a div 4 * 4 + (a mod 4 * 16 + b div 16) div 16 = a"
  by (simp add: div_16_16)

lemma second_byte:
  "(c::nat) < 256 \<Longrightarrow> b < 256 \<Longrightarrow>
   (a mod 4 * 16 + b div 16) mod 16 * 16 + (b mod 16 * 4 + c div 64) div 4 = b"
  by (simp add: div_64_4 div_16_16 div_mult2_eq [symmetric] ac_simps)

lemma third_byte: "(c::nat) < 256 \<Longrightarrow> (b mod 16 * 4 + c div 64) mod 4 * 64 + c mod 64 = c"
  by (simp add: div_64_4 ac_simps)

lemma sextet_bounds:
  "(a::nat) < 256 \<Longrightarrow> b < 256 \<Longrightarrow>
   a div 4 < 64 \<and> a mod 4 * 16 + b div 16 < 64 \<and> b mod 16 * 4 + a div 64 < 64 \<and>
   a mod 64 < 64 \<and> b mod 16 * 4 < 64 \<and> a mod 4 * 16 < 64"
  by (simp add: div_less_iff_less_mult) arith

lemma bytes_to_sextets_bound:
  "\<forall>b\<in>set bs. b < 256 \<Longrightarrow> \<forall>k\<in>set (bytes_to_sextets bs). k < 64"
proof (induction bs rule: bytes_to_sextets.induct)
  case (1 a b c rest)
  then have "a < 256" "b < 256" "c < 256" by simp_all
  with sextet_bounds [of a b] sextet_bounds [of c b] 1 show ?case by simp
next
  case (2 a b)
  then have "a < 256" "b < 256" by simp_all
  with sextet_bounds [of a b] show ?case by simp
next
  case (3 a)
  then have "a < 256" by simp
  with sextet_bounds [of a a] show ?case by simp
next
  case 4
  show ?case by simp
qed

lemma sextets_roundtrip:
  "\<forall>b\<in>set bs. b < 256 \<Longrightarrow> sextets_to_bytes (bytes_to_sextets bs) = bs"
proof (induction bs rule: bytes_to_sextets.induct)
  case (1 a b c rest)
  then have "a < 256" "b < 256" "c < 256" by simp_all
  with 1 show ?case
    by (simp add: first_byte second_byte third_byte)
next
  case (2 a b)
  then have "b < 256" by simp
  with second_byte [of 0 b a] show ?case
    by (simp add: first_byte)
next
  case (3 a)
  with first_byte [of 0 a] show ?case by simp
next
  case 4
  show ?case by simp
qed

lemma bytes_to_sextets_length:
  "length (bytes_to_sextets bs) =
     4 * (length bs div 3) + (if length bs mod 3 = 0 then 0 else length bs mod 3 + 1)"
  by (induction bs rule: bytes_to_sextets.induct) simp_all

lemma those_map_Some: "\<forall>x\<in>set xs. f x = Some (g x) \<Longrightarrow> those (map f xs) = Some (map g xs)"
  by (induction xs) simp_all

lemma strip_padding_body:
  assumes "p \<le> 2" and "(length body + p) mod 4 = 0" and "\<forall>c\<in>set body. c \<noteq> CHR ''=''"
    and "p > 0 \<longrightarrow> body \<noteq> []"
  shows "strip_padding (body @ replicate p (CHR ''='')) = body"
proof -
  consider "p = 0" | "p = 1" | "p = 2" using assms(1) by linarith
  then show ?thesis
  proof cases
    case 1
    with assms show ?thesis
      by (cases body rule: rev_cases) (simp_all add: strip_padding_def)
  next
    case 2
    with assms show ?thesis
      by (cases body rule: rev_cases) (simp_all add: strip_padding_def butlast_append)
  next
    case 3
    then have "replicate p (CHR ''='') = [CHR ''='', CHR ''='']"
      by (simp add: numeral_2_eq_2)
    with assms 3 show ?thesis
      by (simp add: strip_padding_def butlast_append)
  qed
qed

lemma atob_btoa: "atob (btoa s) = Inr s"
proof -
  let ?bs = "map of_char s :: nat list"
  let ?ss = "bytes_to_sextets ?bs"
  let ?body = "map (\<lambda>k. alphabet ! k) ?ss"
  let ?p = "(3 - length s mod 3) mod 3"
  have bytes: "\<forall>b\<in>set ?bs. b < 256"
    by auto
  then have ss: "\<forall>k\<in>set ?ss. k < 64"
    by (rule bytes_to_sextets_bound)
  then have in_alphabet: "\<forall>c\<in>set ?body. c \<in> set alphabet"
    by (auto simp: alphabet_length)
  have len: "length ?body = 4 * (length s div 3) + (if length s mod 3 = 0 then 0 else length s mod 3 + 1)"
    by (simp add: bytes_to_sextets_length)
  have "length s mod 3 = 0 \<or> length s mod 3 = 1 \<or> length s mod 3 = 2"
    by arith
  then have p: "?p \<le> 2" "(length ?body + ?p) mod 4 = 0" "length ?body mod 4 \<noteq> 1"
      "?p > 0 \<longrightarrow> length ?body \<noteq> 0"
    unfolding len by auto
  from p(4) have nonempty: "?p > 0 \<longrightarrow> ?body \<noteq> []"
    by (simp only: length_0_conv)
  from in_alphabet have plain: "\<forall>c\<in>set ?body. c \<noteq> CHR ''='' \<and> \<not> isAsciiWhitespace c"
    using alphabet_plain by blast
  have pad: "\<not> isAsciiWhitespace (CHR ''='')"
    by (simp add: isAsciiWhitespace_def)
  have "filter (\<lambda>c. \<not> isAsciiWhitespace c) (btoa s) = btoa s"
    unfolding btoa_def filter_id_conv using plain pad by auto
  moreover have "strip_padding (btoa s) = ?body"
    unfolding btoa_def using p(1,2) nonempty plain
    by (intro strip_padding_body) auto
  moreover have "those (map (\<lambda>c. position c alphabet) ?body) = Some ?ss"
    using ss those_map_Some [of ?ss "\<lambda>k. position (alphabet ! k) alphabet" "\<lambda>k. k"]
    by (simp add: sextet_position comp_def)
  moreover have "sextets_to_bytes ?ss = ?bs"
    using bytes by (rule sextets_roundtrip)
  ultimately show ?thesis
    using p(3) by (simp add: atob_def Let_def comp_def)
qed


lemma int16_view_length: "length (int16_view bytes) = length bytes div 2"
  by (induction bytes rule: int16_view.induct) simp_all

lemma int16_of_bytes: "word_cat (ucast (drop_bit 8 x) :: 8 word) (ucast x :: 8 word) = (x :: 16 word)"
  by (rule bit_word_eqI) (auto simp: bit_simps)

lemma int16_view_pcm16le: "int16_view (pcm16le samples) = samples"
  by (induction samples) (simp_all add: pcm16le_def int16_of_bytes)

lemma pcm16le_length: "length (pcm16le samples) = 2 * length samples"
  by (induction samples) (simp_all add: pcm16le_def)

lemma byte_of_char_code: "of_nat (of_char (char_of (unat b))) = (b :: 8 word)"
proof -
  have "unat b < 256" using unsigned_less [of b] by simp
  then show ?thesis by simp
qed

lemma bytes_of_fromCharCodes: "map (\<lambda>c. of_nat (of_char c)) (fromCharCodes bytes) = bytes"
proof -
  have "map ((\<lambda>c. of_nat (of_char c)) \<circ> (\<lambda>b. char_of (unat b))) bytes = bytes"
    by (rule map_idI) (simp only: comp_def byte_of_char_code)
  then show ?thesis
    by (simp only: fromCharCodes_def map_map)
qed

text \<open>
  Claim C8. For every payload that \<open>atob\<close> decodes to an odd number of bytes, the decode
  step raises no error: it drops the last byte and reads the remaining bytes as 16-bit
  little-endian samples, \<open>(n - 1) / 2\<close> of them. A payload of 5 bytes gives exactly 2
  samples, made of the first 4 bytes.
\<close>

theorem odd_payload_drops_last_byte:
  assumes "atob base64 = Inr binaryString" and "odd (length binaryString)"
  shows "decodePcm base64 =
           Inr (map (\<lambda>x. real_of_int (sint x) / 32768)
                  (int16_view (map (\<lambda>c. of_nat (of_char c)) (butlast binaryString)))) \<and>
         (\<exists>samples. decodePcm base64 = Inr samples \<and> length samples = (length binaryString - 1) div 2 \<and>
            (length binaryString = 5 \<longrightarrow> length samples = 2))"
proof -
  let ?bytes = "map (\<lambda>c. of_nat (of_char c)) binaryString :: 8 word list"
  from assms(2) have m: "length ?bytes mod 2 = 1"
    by (simp add: odd_iff_mod_2_eq_one)
  then have t: "take (length ?bytes - length ?bytes mod 2) ?bytes =
      map (\<lambda>c. of_nat (of_char c)) (butlast binaryString)"
    by (simp add: butlast_conv_take take_map)
  from assms(2) have "even (length (butlast binaryString))"
    by simp
  then have "Int16Array (map (\<lambda>c. of_nat (of_char c)) (butlast binaryString)) =
      Inr (int16_view (map (\<lambda>c. of_nat (of_char c)) (butlast binaryString)))"
    by (simp add: Int16Array_def)
  with t have d: "decodePcm base64 =
           Inr (map (\<lambda>x. real_of_int (sint x) / 32768)
                  (int16_view (map (\<lambda>c. of_nat (of_char c)) (butlast binaryString))))"
    using m by (simp add: decodePcm_def assms(1) Let_def)
  then show ?thesis
    by (simp add: int16_view_length)
qed

theorem odd_payload_drops_last_byte_witness:
  "atob ''AQIDBAU='' = Inr [CHR 0x01, CHR 0x02, CHR 0x03, CHR 0x04, CHR 0x05] \<and>
   odd (length [CHR 0x01, CHR 0x02, CHR 0x03, CHR 0x04, CHR 0x05]) \<and>
   decodePcm ''AQIDBAU='' = Inr [513 / 32768, 1027 / 32768]"
proof -
  have a: "atob ''AQIDBAU='' = Inr [CHR 0x01, CHR 0x02, CHR 0x03, CHR 0x04, CHR 0x05]"
    by code_simp
  have b: "odd (length [CHR 0x01, CHR 0x02, CHR 0x03, CHR 0x04, CHR 0x05])"
    by simp
  have c: "word_cat (2 :: 8 word) (1 :: 8 word) = (513 :: 16 word)"
    "word_cat (4 :: 8 word) (3 :: 8 word) = (1027 :: 16 word)"
    by code_simp+
  show ?thesis
    using odd_payload_drops_last_byte [OF a b] a b by (simp add: c)
qed

text \<open>
  Claim C9. For every list of 16-bit samples, encoding them as little-endian PCM bytes
  in base64 and running the decode step gives back as many samples, each equal to the
  original sample divided by 32768.
\<close>

theorem pcm_round_trip:
  "decodePcm (encodePcm samples) = Inr (map (\<lambda>x. real_of_int (sint x) / 32768) samples)"
proof -
  let ?bytes = "pcm16le samples"
  have "take (length ?bytes - length ?bytes mod 2) ?bytes = ?bytes"
    by (simp add: pcm16le_length)
  moreover have "Int16Array ?bytes = Inr samples"
    by (simp add: Int16Array_def pcm16le_length int16_view_pcm16le)
  ultimately show ?thesis
    by (simp add: decodePcm_def encodePcm_def atob_btoa bytes_of_fromCharCodes Let_def)
qed

theorem pcm_round_trip_witness:
  "encodePcm [1, - 1, 32767, - 32768, 513] = ''AQD///9/AIABAg=='' \<and>
   decodePcm ''AQD///9/AIABAg=='' = Inr [1 / 32768, - 1 / 32768, 32767 / 32768, - 1, 513 / 32768]"
proof -
  have e: "encodePcm [1, - 1, 32767, - 32768, 513] = ''AQD///9/AIABAg==''"
    by code_simp
  show ?thesis
    using pcm_round_trip [of "[1, - 1, 32767, - 32768, 513]"] unfolding e by simp
qed

end
